theory Spec2Isabelle
  imports Main
begin

section \<open>Cards\<close>

text \<open>
  The solver is Python. Indexing a list out of range raises \<^verbatim>\<open>IndexError\<close>; that is the
  only exception the modelled functions can raise, and it is a value of the model.
\<close>

datatype error = IndexError

text \<open>
  \<^verbatim>\<open>Card.__init__\<close> stores three attributes: \<^verbatim>\<open>p = len(values)\<close>, \<^verbatim>\<open>v = 3\<close> and the list
  \<^verbatim>\<open>values\<close>. Python integers are unbounded, hence \<^typ>\<open>int\<close>.
\<close>

record card =
  p :: nat
  v :: nat
  "values" :: "int list"

definition Card :: "int list \<Rightarrow> card" where
  "Card vals = \<lparr>p = length vals, v = 3, values = vals\<rparr>"

text \<open>\<^verbatim>\<open>xs[i]\<close> for a non-negative index.\<close>

definition getitem :: "'a list \<Rightarrow> nat \<Rightarrow> error + 'a" where
  "getitem xs i = (if i < length xs then Inr (xs ! i) else Inl IndexError)"

text \<open>
  \<^verbatim>\<open>Card.__eq__\<close>: the loop runs over \<^verbatim>\<open>enumerate(self.values)\<close> and reads
  \<^verbatim>\<open>other.values[index]\<close>; it returns at the first difference and compares no lengths.
\<close>

fun eq_loop :: "(nat \<times> int) list \<Rightarrow> int list \<Rightarrow> error + bool" where
  "eq_loop [] other_values = Inr True"
| "eq_loop ((index, val) # rest) other_values =
     (case getitem other_values index of
        Inl e \<Rightarrow> Inl e
      | Inr w \<Rightarrow> if val \<noteq> w then Inr False else eq_loop rest other_values)"

definition card_eq :: "card \<Rightarrow> card \<Rightarrow> error + bool" where
  "card_eq self other = eq_loop (enumerate 0 (values self)) (values other)"

text \<open>
  \<^verbatim>\<open>Card.__hash__\<close> is \<^verbatim>\<open>hash(tuple(self.values))\<close>. The builtin \<^verbatim>\<open>hash\<close> on tuples is not
  code of the solver; it is a parameter, and \<open>tuple_of\<close> is the key it is applied to.
\<close>

definition tuple_of :: "card \<Rightarrow> int list" where
  "tuple_of self = values self"

definition card_hash :: "(int list \<Rightarrow> 'h) \<Rightarrow> card \<Rightarrow> 'h" where
  "card_hash builtin_hash self = builtin_hash (tuple_of self)"

section \<open>Hands\<close>

text \<open>
  A hand holds a Python \<^verbatim>\<open>set\<close> of cards and its size. A set is iterated in an order that
  is fixed while the set is not modified, but that the program does not choose; the model
  keeps the cards as the list in that iteration order. Membership in the set goes through
  \<^verbatim>\<open>__hash__\<close> and \<^verbatim>\<open>__eq__\<close>, which read only \<^verbatim>\<open>values\<close>.
\<close>

record hand =
  cards :: "card list"
  hand_size :: nat

text \<open>
  \<^verbatim>\<open>Hand.__init__\<close>: \<^verbatim>\<open>set(cards)\<close> (the empty set for \<^verbatim>\<open>None\<close>) and its length. Since the
  iteration order is not determined by the program, construction is a relation: \<open>h\<close> is a
  hand that the constructor may build from the argument.
\<close>

definition Hand_init :: "card list option \<Rightarrow> hand \<Rightarrow> bool" where
  "Hand_init arg h \<longleftrightarrow>
     (let given = (case arg of None \<Rightarrow> [] | Some cs \<Rightarrow> cs) in
        distinct (map values (cards h)) \<and>
        set (cards h) \<subseteq> set given \<and>
        set (map values given) \<subseteq> set (map values (cards h)) \<and>
        hand_size h = length (cards h))"

definition find_card :: "hand \<Rightarrow> card \<Rightarrow> bool" where
  "find_card self c \<longleftrightarrow> values c \<in> set (map values (cards self))"

text \<open>
  \<^verbatim>\<open>calculate_third_card\<close>: \<^verbatim>\<open>card3_values = [0]*card1.p\<close>, then one assignment per index in
  \<^verbatim>\<open>range(card1.p)\<close>. \<^verbatim>\<open>p_set\<close> is the set of the two values read; the set difference
  \<^verbatim>\<open>set(range(card1.v)) - p_set\<close> is listed in ascending order (the order in which a set of
  small non-negative integers is iterated), and \<^verbatim>\<open>[0]\<close> on an empty list raises.
\<close>

fun third_loop :: "card \<Rightarrow> card \<Rightarrow> nat list \<Rightarrow> int list \<Rightarrow> error + int list" where
  "third_loop card1 card2 [] card3_values = Inr card3_values"
| "third_loop card1 card2 (i # rest) card3_values =
     (case getitem (values card1) i of
        Inl e \<Rightarrow> Inl e
      | Inr x \<Rightarrow>
          (case getitem (values card2) i of
             Inl e \<Rightarrow> Inl e
           | Inr y \<Rightarrow>
               (let p_set = remdups [x, y] in
                  if length p_set < 2 then
                    third_loop card1 card2 rest (card3_values[i := x])
                  else
                    (case getitem (filter (\<lambda>u. u \<notin> set p_set) (map int [0..<v card1])) 0 of
                       Inl e \<Rightarrow> Inl e
                     | Inr z \<Rightarrow> third_loop card1 card2 rest (card3_values[i := z])))))"

definition calculate_third_card :: "card \<Rightarrow> card \<Rightarrow> error + card" where
  "calculate_third_card card1 card2 =
     (case third_loop card1 card2 [0..<p card1] (replicate (p card1) 0) of
        Inl e \<Rightarrow> Inl e
      | Inr card3_values \<Rightarrow> Inr (Card card3_values))"

text \<open>\<^verbatim>\<open>itertools.combinations(xs, 2)\<close>: the pairs of positions \<open>i < j\<close>, in lexicographic order.\<close>

fun combinations2 :: "'a list \<Rightarrow> ('a \<times> 'a) list" where
  "combinations2 [] = []"
| "combinations2 (x # xs) = map (Pair x) xs @ combinations2 xs"

text \<open>The loop shared by both searches: the first pair whose third card is in the hand.\<close>

fun search_pairs :: "hand \<Rightarrow> (card \<times> card) list \<Rightarrow> error + (card \<times> card \<times> card) option" where
  "search_pairs self [] = Inr None"
| "search_pairs self ((c1, c2) # rest) =
     (case calculate_third_card c1 c2 of
        Inl e \<Rightarrow> Inl e
      | Inr c3 \<Rightarrow>
          if find_card self c3 then Inr (Some (c1, c2, c3)) else search_pairs self rest)"

text \<open>The list \<^verbatim>\<open>pairs\<close> that \<^verbatim>\<open>find_set\<close> builds before its loop.\<close>

definition find_set_pairs :: "hand \<Rightarrow> (card \<times> card) list" where
  "find_set_pairs self =
     (let part1 = take (hand_size self div 2) (cards self);
          part2 = drop (hand_size self div 2) (cards self);
          pairs1 = combinations2 part1;
          pairs2 = combinations2 part2
      in pairs1 @ pairs2)"

definition find_set :: "hand \<Rightarrow> error + (card \<times> card \<times> card) option" where
  "find_set self = search_pairs self (find_set_pairs self)"

definition find_set_brute_force :: "hand \<Rightarrow> error + (card \<times> card \<times> card) option" where
  "find_set_brute_force self = search_pairs self (combinations2 (cards self))"

text \<open>
  The number of pairs for which the loop body runs: every pair up to and including the
  first hit.
\<close>

fun pairs_checked :: "hand \<Rightarrow> (card \<times> card) list \<Rightarrow> nat" where
  "pairs_checked self [] = 0"
| "pairs_checked self ((c1, c2) # rest) =
     (case calculate_third_card c1 c2 of
        Inl e \<Rightarrow> 1
      | Inr c3 \<Rightarrow> if find_card self c3 then 1 else 1 + pairs_checked self rest)"

section \<open>The validity check of the test suite\<close>

text \<open>
  \<^verbatim>\<open>is_valid_SET\<close> of \<^verbatim>\<open>test.py\<close>: for every index in \<^verbatim>\<open>range(SET[0].p)\<close>, the values of the
  cards at that index must not have more than one and fewer than \<^verbatim>\<open>len(SET)\<close> distinct
  elements.
\<close>

fun column :: "card list \<Rightarrow> nat \<Rightarrow> error + int list" where
  "column [] i = Inr []"
| "column (c # cs) i =
     (case getitem (values c) i of
        Inl e \<Rightarrow> Inl e
      | Inr x \<Rightarrow> (case column cs i of Inl e \<Rightarrow> Inl e | Inr xs \<Rightarrow> Inr (x # xs)))"

fun valid_loop :: "card list \<Rightarrow> nat list \<Rightarrow> error + bool" where
  "valid_loop SET [] = Inr True"
| "valid_loop SET (i # rest) =
     (case column SET i of
        Inl e \<Rightarrow> Inl e
      | Inr vals \<Rightarrow>
          if length (remdups vals) > 1 \<and> length (remdups vals) < length vals then Inr False
          else valid_loop SET rest)"

definition is_valid_SET :: "card list \<Rightarrow> error + bool" where
  "is_valid_SET SET =
     (case getitem SET 0 of
        Inl e \<Rightarrow> Inl e
      | Inr c0 \<Rightarrow> valid_loop SET [0..<p c0])"

text \<open>
  \<^verbatim>\<open>itertools.combinations(xs, 3)\<close>, for the exhaustive check of all three-element subsets
  that the specification names as ground truth.
\<close>

fun combinations3 :: "'a list \<Rightarrow> ('a \<times> 'a \<times> 'a) list" where
  "combinations3 [] = []"
| "combinations3 (x # xs) = map (Pair x) (combinations2 xs) @ combinations3 xs"

definition exhaustive_has_SET :: "hand \<Rightarrow> bool" where
  "exhaustive_has_SET self \<longleftrightarrow>
     (\<exists>(c1, c2, c3) \<in> set (combinations3 (cards self)). is_valid_SET [c1, c2, c3] = Inr True)"

section \<open>Well-formed cards and hands\<close>

text \<open>
  A card of shape \<open>n\<close>: built by the constructor from \<open>n\<close> values, each in \<open>[0, 3)\<close>.
  A hand of shape \<open>n\<close>: a duplicate-free collection of such cards, with its size.
\<close>

definition wf_card :: "nat \<Rightarrow> card \<Rightarrow> bool" where
  "wf_card n c \<longleftrightarrow>
     c = Card (values c) \<and> length (values c) = n \<and> (\<forall>x \<in> set (values c). 0 \<le> x \<and> x < 3)"

definition wf_hand :: "nat \<Rightarrow> hand \<Rightarrow> bool" where
  "wf_hand n h \<longleftrightarrow>
     distinct (cards h) \<and> hand_size h = length (cards h) \<and> (\<forall>c \<in> set (cards h). wf_card n c)"

text \<open>
  The third value the rule assigns at one index, and the card it builds, in closed form;
  the lemmas below show that \<open>calculate_third_card\<close> computes exactly this.
\<close>

definition third_val :: "int \<Rightarrow> int \<Rightarrow> int" where
  "third_val x y = (if x = y then x else (- x - y) mod 3)"

definition third :: "card \<Rightarrow> card \<Rightarrow> card" where
  "third a b = Card (map2 third_val (values a) (values b))"

text \<open>The per-index condition of a valid SET: all identical or all pairwise distinct.\<close>

definition same_or_distinct :: "int \<Rightarrow> int \<Rightarrow> int \<Rightarrow> bool" where
  "same_or_distinct x y z \<longleftrightarrow> (x = y \<and> y = z) \<or> (x \<noteq> y \<and> y \<noteq> z \<and> x \<noteq> z)"

text \<open>The test the search loop applies to a pair, on well-formed cards.\<close>

definition hit :: "hand \<Rightarrow> card \<times> card \<Rightarrow> bool" where
  "hit h ab \<longleftrightarrow> find_card h (third (fst ab) (snd ab))"

section \<open>The hands of the test suite\<close>

text \<open>
  The three-card hands of \<^verbatim>\<open>test_valid_SET1\<close> and \<^verbatim>\<open>test_invalid_SET1\<close> in \<^verbatim>\<open>test.py\<close>, listed
  in the order of the test's argument: one of the orders in which the set may be iterated.
  The theorems below hold for every order.
\<close>

definition test_valid_SET1 :: hand where
  "test_valid_SET1 =
     \<lparr>cards = [Card [0, 1, 2, 0], Card [1, 2, 2, 1], Card [2, 0, 2, 2]], hand_size = 3\<rparr>"

definition test_invalid_SET1 :: hand where
  "test_invalid_SET1 =
     \<lparr>cards = [Card [0, 0, 1, 0], Card [0, 2, 2, 1], Card [0, 0, 0, 2]], hand_size = 3\<rparr>"

text \<open>
  A four-card hand of two-property cards in which \<open>[0, 0]\<close> and \<open>[1, 1]\<close> lie in different
  halves and complete to a SET with \<open>[2, 2]\<close>: brute force returns that pair, \<open>find_set\<close>
  cannot.
\<close>

definition spanning_hand :: hand where
  "spanning_hand = \<lparr>cards = [Card [0, 0], Card [0, 1], Card [1, 1], Card [2, 2]], hand_size = 4\<rparr>"

section \<open>Card equality and the third card\<close>

lemma getitem_simps [simp]:
  "i < length xs \<Longrightarrow> getitem xs i = Inr (xs ! i)"
  "length xs \<le> i \<Longrightarrow> getitem xs i = Inl IndexError"
  by (simp_all add: getitem_def)

lemma wf_card_fields:
  assumes "wf_card n c"
  shows "p c = n" and "v c = 3" and "length (values c) = n"
    and "\<And>i. i < n \<Longrightarrow> values c ! i \<in> {0, 1, 2}"
proof -
  from assms have c: "c = Card (values c)" and len: "length (values c) = n"
    and rng: "\<forall>x \<in> set (values c). 0 \<le> x \<and> x < 3"
    by (simp_all add: wf_card_def)
  from c have "p c = p (Card (values c))" by simp
  then show "p c = n" using len by (simp add: Card_def)
  from c have "v c = v (Card (values c))" by simp
  then show "v c = 3" by (simp add: Card_def)
  show "length (values c) = n" by (rule len)
  fix i assume "i < n"
  then have "values c ! i \<in> set (values c)" using len by simp
  with rng have "0 \<le> values c ! i \<and> values c ! i < 3" by blast
  then show "values c ! i \<in> {0, 1, 2}" by auto
qed

lemma wf_card_eqI:
  assumes "wf_card n a" "wf_card m b" "values a = values b"
  shows "a = b"
proof -
  from assms have "a = Card (values a)" "b = Card (values b)" by (simp_all add: wf_card_def)
  with assms(3) show ?thesis by simp
qed

lemma eq_loop_enumerate:
  "k + length xs \<le> length ys \<Longrightarrow>
   eq_loop (enumerate k xs) ys = Inr (xs = take (length xs) (drop k ys))"
proof (induction xs arbitrary: k)
  case Nil
  then show ?case by simp
next
  case (Cons x xs)
  then have k: "k < length ys" and IH: "eq_loop (enumerate (Suc k) xs) ys = Inr (xs = take (length xs) (drop (Suc k) ys))"
    by simp_all
  from k have d: "drop k ys = ys ! k # drop (Suc k) ys" by (simp add: Cons_nth_drop_Suc)
  show ?case using k IH by (auto simp: d)
qed

lemma card_eq_same_length:
  "length (values a) = length (values b) \<Longrightarrow> card_eq a b = Inr (values a = values b)"
  using eq_loop_enumerate [of 0 "values a" "values b"] by (simp add: card_eq_def)

lemma third_filter:
  assumes "x \<in> {0, 1, 2}" "y \<in> {0, 1, 2}" "x \<noteq> y"
  shows "filter (\<lambda>u. u \<notin> set (remdups [x, y])) (map int [0..<3]) = [third_val x y]"
proof -
  have m: "map int [0..<3] = [0, 1, 2]" by (simp add: upt_rec)
  from assms show ?thesis unfolding m third_val_def by auto
qed

lemma third_val_range:
  "x \<in> {0, 1, 2} \<Longrightarrow> y \<in> {0, 1, 2} \<Longrightarrow> third_val x y \<in> {0, 1, 2}"
  unfolding third_val_def by auto

lemma third_loop_ok:
  assumes a: "wf_card n a" and b: "wf_card n b"
  shows "\<forall>i \<in> set idxs. i < n \<Longrightarrow>
    \<exists>r. third_loop a b idxs acc = Inr r \<and> length r = length acc \<and>
      (\<forall>j < length acc. r ! j =
         (if j \<in> set idxs then third_val (values a ! j) (values b ! j) else acc ! j))"
proof (induction idxs arbitrary: acc)
  case Nil
  then show ?case by simp
next
  case (Cons i idxs)
  then have i: "i < n" and rest: "\<forall>i \<in> set idxs. i < n" by simp_all
  let ?x = "values a ! i" and ?y = "values b ! i"
  have la: "length (values a) = n" and lb: "length (values b) = n" and va: "v a = 3"
    using wf_card_fields [OF a] wf_card_fields [OF b] by simp_all
  have xr: "?x \<in> {0, 1, 2}" and yr: "?y \<in> {0, 1, 2}"
    using wf_card_fields(4) [OF a i] wf_card_fields(4) [OF b i] by simp_all
  have step: "third_loop a b (i # idxs) acc = third_loop a b idxs (acc[i := third_val ?x ?y])"
  proof (cases "?x = ?y")
    case True
    then show ?thesis using i la lb by (simp add: third_val_def)
  next
    case False
    with third_filter [OF xr yr] have
      "filter (\<lambda>u. u \<notin> set (remdups [?x, ?y])) (map int [0..<3]) = [third_val ?x ?y]" by simp
    then show ?thesis using False i la lb va by (simp add: Let_def)
  qed
  from Cons.IH [OF rest, of "acc[i := third_val ?x ?y]"] obtain r where
    r: "third_loop a b idxs (acc[i := third_val ?x ?y]) = Inr r" "length r = length acc"
    and nth: "\<forall>j < length acc. r ! j =
       (if j \<in> set idxs then third_val (values a ! j) (values b ! j)
        else acc[i := third_val ?x ?y] ! j)"
    by auto
  show ?case unfolding step using r nth by (auto simp: nth_list_update)
qed

lemma calculate_third_card_eq:
  assumes a: "wf_card n a" and b: "wf_card n b"
  shows "calculate_third_card a b = Inr (third a b)"
proof -
  have "\<forall>i \<in> set [0..<n]. i < n" by simp
  from third_loop_ok [OF a b this, of "replicate n 0"] obtain r where
    r: "third_loop a b [0..<n] (replicate n 0) = Inr r" and len: "length r = n"
    and nth: "\<forall>j < n. r ! j = third_val (values a ! j) (values b ! j)"
    by auto
  have "r = map2 third_val (values a) (values b)"
    using len nth wf_card_fields(3) [OF a] wf_card_fields(3) [OF b]
    by (intro nth_equalityI) simp_all
  then show ?thesis using r wf_card_fields(1) [OF a]
    by (simp add: calculate_third_card_def third_def)
qed

lemma third_val_cases:
  assumes "x \<in> {0, 1, 2}" "y \<in> {0, 1, 2}"
  shows "third_val x y = third_val y x"
    and "third_val x (third_val x y) = y"
    and "x \<noteq> y \<Longrightarrow> third_val x y \<noteq> x \<and> third_val x y \<noteq> y"
  using assms unfolding third_val_def by auto

lemma Card_fields [simp]:
  "values (Card xs) = xs" "p (Card xs) = length xs" "v (Card xs) = 3"
  by (simp_all add: Card_def)

lemma values_third: "values (third a b) = map2 third_val (values a) (values b)"
  by (simp add: third_def)

lemma wf_third:
  assumes a: "wf_card n a" and b: "wf_card n b"
  shows "wf_card n (third a b)"
proof -
  have len: "length (values a) = n" "length (values b) = n"
    using wf_card_fields(3) [OF a] wf_card_fields(3) [OF b] by simp_all
  have "third a b = Card (values (third a b))" by (simp add: third_def)
  moreover have "length (values (third a b)) = n" using len by (simp add: values_third)
  moreover have "\<forall>x \<in> set (values (third a b)). 0 \<le> x \<and> x < 3"
  proof
    fix x assume "x \<in> set (values (third a b))"
    then obtain i where i: "i < n" and x: "x = third_val (values a ! i) (values b ! i)"
      using len by (auto simp: in_set_conv_nth values_third)
    from third_val_range [OF wf_card_fields(4) [OF a i] wf_card_fields(4) [OF b i]] x
    show "0 \<le> x \<and> x < 3" by auto
  qed
  ultimately show ?thesis unfolding wf_card_def by blast
qed

lemma third_nth:
  assumes "wf_card n a" "wf_card n b" "i < n"
  shows "values (third a b) ! i = third_val (values a ! i) (values b ! i)"
  using assms wf_card_fields(3) by (simp add: values_third)

lemma third_commute:
  assumes a: "wf_card n a" and b: "wf_card n b"
  shows "third a b = third b a"
proof (rule wf_card_eqI [OF wf_third [OF a b] wf_third [OF b a]])
  show "values (third a b) = values (third b a)"
  proof (rule nth_equalityI)
    show "length (values (third a b)) = length (values (third b a))"
      using wf_card_fields(3) [OF a] wf_card_fields(3) [OF b] by (simp add: values_third)
  next
    fix i assume "i < length (values (third a b))"
    then have i: "i < n" using wf_card_fields(3) [OF a] wf_card_fields(3) [OF b]
      by (simp add: values_third)
    show "values (third a b) ! i = values (third b a) ! i"
      using third_val_cases(1) [OF wf_card_fields(4) [OF a i] wf_card_fields(4) [OF b i]]
      by (simp add: third_nth [OF a b i] third_nth [OF b a i])
  qed
qed

lemma third_recover:
  assumes a: "wf_card n a" and b: "wf_card n b"
  shows "third a (third a b) = b"
proof (rule wf_card_eqI [OF wf_third [OF a wf_third [OF a b]] b])
  show "values (third a (third a b)) = values b"
  proof (rule nth_equalityI)
    show "length (values (third a (third a b))) = length (values b)"
      using wf_card_fields(3) [OF a] wf_card_fields(3) [OF b] by (simp add: values_third)
  next
    fix i assume "i < length (values (third a (third a b)))"
    then have i: "i < n" using wf_card_fields(3) [OF a] wf_card_fields(3) [OF b]
      by (simp add: values_third)
    show "values (third a (third a b)) ! i = values b ! i"
      using third_val_cases(2) [OF wf_card_fields(4) [OF a i] wf_card_fields(4) [OF b i]]
      by (simp add: third_nth [OF a wf_third [OF a b] i] third_nth [OF a b i])
  qed
qed

lemma third_recover2:
  assumes a: "wf_card n a" and b: "wf_card n b"
  shows "third b (third a b) = a"
  using third_recover [OF b a] third_commute [OF a b] by simp

lemma wf_card_neq_index:
  assumes a: "wf_card n a" and b: "wf_card n b" and ne: "a \<noteq> b"
  shows "\<exists>i < n. values a ! i \<noteq> values b ! i"
proof (rule ccontr)
  assume "\<not> ?thesis"
  then have "values a = values b"
    using wf_card_fields(3) [OF a] wf_card_fields(3) [OF b] by (intro nth_equalityI) auto
  with wf_card_eqI [OF a b] ne show False by blast
qed

lemma third_distinct:
  assumes a: "wf_card n a" and b: "wf_card n b" and ne: "a \<noteq> b"
  shows "third a b \<noteq> a" and "third a b \<noteq> b"
proof -
  from wf_card_neq_index [OF a b ne] obtain i where i: "i < n"
    and d: "values a ! i \<noteq> values b ! i" by blast
  from third_val_cases(3) [OF wf_card_fields(4) [OF a i] wf_card_fields(4) [OF b i] d]
  have "values (third a b) ! i \<noteq> values a ! i" "values (third a b) ! i \<noteq> values b ! i"
    by (simp_all add: third_nth [OF a b i])
  then show "third a b \<noteq> a" and "third a b \<noteq> b" by auto
qed

section \<open>The validity check on three cards\<close>

lemma same_or_distinct_third:
  assumes "x \<in> {0, 1, 2}" "y \<in> {0, 1, 2}" "z \<in> {0, 1, 2}"
  shows "same_or_distinct x y z \<longleftrightarrow> z = third_val x y"
  using assms by (elim insertE emptyE; simp add: same_or_distinct_def third_val_def)

lemma remdups3:
  "(length (remdups [x, y, z]) > 1 \<and> length (remdups [x, y, z]) < length [x, y, z])
     \<longleftrightarrow> \<not> same_or_distinct x y z"
  unfolding same_or_distinct_def by auto

lemma valid_loop3:
  assumes a: "wf_card n a" and b: "wf_card n b" and c: "wf_card n c"
  shows "\<forall>i \<in> set idxs. i < n \<Longrightarrow>
    valid_loop [a, b, c] idxs =
      Inr (\<forall>i \<in> set idxs. same_or_distinct (values a ! i) (values b ! i) (values c ! i))"
proof (induction idxs)
  case Nil
  then show ?case by simp
next
  case (Cons i idxs)
  then have i: "i < n" and IH: "valid_loop [a, b, c] idxs =
      Inr (\<forall>i \<in> set idxs. same_or_distinct (values a ! i) (values b ! i) (values c ! i))"
    by simp_all
  have col: "column [a, b, c] i = Inr [values a ! i, values b ! i, values c ! i]"
    using i wf_card_fields(3) [OF a] wf_card_fields(3) [OF b] wf_card_fields(3) [OF c] by simp
  have step: "valid_loop [a, b, c] (i # idxs) =
      (if \<not> same_or_distinct (values a ! i) (values b ! i) (values c ! i) then Inr False
       else valid_loop [a, b, c] idxs)"
    by (simp only: valid_loop.simps col sum.case remdups3)
  show ?case unfolding step IH by simp
qed

lemma is_valid_SET3:
  assumes a: "wf_card n a" and b: "wf_card n b" and c: "wf_card n c"
  shows "is_valid_SET [a, b, c] =
    Inr (\<forall>i < n. same_or_distinct (values a ! i) (values b ! i) (values c ! i))"
proof -
  have "\<forall>i \<in> set [0..<n]. i < n" by simp
  from valid_loop3 [OF a b c this]
  have "valid_loop [a, b, c] [0..<n] =
      Inr (\<forall>i < n. same_or_distinct (values a ! i) (values b ! i) (values c ! i))"
    by (simp add: Ball_def)
  then show ?thesis
    using wf_card_fields(1) [OF a] by (simp add: is_valid_SET_def)
qed

lemma is_valid_SET_third:
  assumes a: "wf_card n a" and b: "wf_card n b" and c: "wf_card n c"
  shows "is_valid_SET [a, b, c] = Inr (c = third a b)"
proof -
  have "(\<forall>i < n. same_or_distinct (values a ! i) (values b ! i) (values c ! i)) \<longleftrightarrow> c = third a b"
  proof
    assume h: "\<forall>i < n. same_or_distinct (values a ! i) (values b ! i) (values c ! i)"
    have "values c = values (third a b)"
    proof (rule nth_equalityI)
      show "length (values c) = length (values (third a b))"
        using wf_card_fields(3) [OF a] wf_card_fields(3) [OF b] wf_card_fields(3) [OF c]
        by (simp add: values_third)
    next
      fix i assume "i < length (values c)"
      then have i: "i < n" using wf_card_fields(3) [OF c] by simp
      from h i have "same_or_distinct (values a ! i) (values b ! i) (values c ! i)" by blast
      with same_or_distinct_third [OF wf_card_fields(4) [OF a i] wf_card_fields(4) [OF b i]
          wf_card_fields(4) [OF c i]]
      show "values c ! i = values (third a b) ! i" by (simp add: third_nth [OF a b i])
    qed
    with wf_card_eqI [OF c wf_third [OF a b]] show "c = third a b" by blast
  next
    assume e: "c = third a b"
    show "\<forall>i < n. same_or_distinct (values a ! i) (values b ! i) (values c ! i)"
    proof (intro allI impI)
      fix i assume i: "i < n"
      from same_or_distinct_third [OF wf_card_fields(4) [OF a i] wf_card_fields(4) [OF b i]
          wf_card_fields(4) [OF c i]]
      show "same_or_distinct (values a ! i) (values b ! i) (values c ! i)"
        unfolding e by (simp add: third_nth [OF a b i])
    qed
  qed
  with is_valid_SET3 [OF a b c] show ?thesis by simp
qed

section \<open>Pairs and triples of a list\<close>

lemma combinations2_mem:
  "(a, b) \<in> set (combinations2 xs) \<Longrightarrow> a \<in> set xs \<and> b \<in> set xs"
  by (induction xs) auto

lemma combinations2_neq:
  "distinct xs \<Longrightarrow> (a, b) \<in> set (combinations2 xs) \<Longrightarrow> a \<noteq> b"
  by (induction xs) (auto dest: combinations2_mem)

lemma combinations2_total:
  "a \<in> set xs \<Longrightarrow> b \<in> set xs \<Longrightarrow> a \<noteq> b \<Longrightarrow>
   (a, b) \<in> set (combinations2 xs) \<or> (b, a) \<in> set (combinations2 xs)"
  by (induction xs) auto

lemma set_combinations2_append:
  "set (combinations2 (xs @ ys)) =
     set (combinations2 xs) \<union> set xs \<times> set ys \<union> set (combinations2 ys)"
  by (induction xs) auto

lemma length_combinations2: "length (combinations2 xs) = length xs choose 2"
  by (induction xs) (simp_all add: numeral_2_eq_2)

lemma combinations3_mem:
  "(a, b, c) \<in> set (combinations3 xs) \<Longrightarrow> (a, b) \<in> set (combinations2 xs) \<and> c \<in> set xs"
  by (induction xs) (auto dest: combinations2_mem)

lemma combinations3_total:
  assumes "a \<in> set xs" "b \<in> set xs" "c \<in> set xs" "a \<noteq> b" "a \<noteq> c" "b \<noteq> c"
  shows "(a, b, c) \<in> set (combinations3 xs) \<or> (a, c, b) \<in> set (combinations3 xs) \<or>
         (b, a, c) \<in> set (combinations3 xs) \<or> (b, c, a) \<in> set (combinations3 xs) \<or>
         (c, a, b) \<in> set (combinations3 xs) \<or> (c, b, a) \<in> set (combinations3 xs)"
  using assms
proof (induction xs)
  case Nil
  then show ?case by simp
next
  case (Cons x xs)
  consider "x = a" | "x = b" | "x = c" | "x \<noteq> a" "x \<noteq> b" "x \<noteq> c" by blast
  then show ?case
  proof cases
    case 1
    with Cons.prems have "b \<in> set xs" "c \<in> set xs" by auto
    from combinations2_total [OF this \<open>b \<noteq> c\<close>] 1 show ?thesis by auto
  next
    case 2
    with Cons.prems have "a \<in> set xs" "c \<in> set xs" by auto
    from combinations2_total [OF this \<open>a \<noteq> c\<close>] 2 show ?thesis by auto
  next
    case 3
    with Cons.prems have "a \<in> set xs" "b \<in> set xs" by auto
    from combinations2_total [OF this \<open>a \<noteq> b\<close>] 3 show ?thesis by auto
  next
    case 4
    with Cons.prems have "a \<in> set xs" "b \<in> set xs" "c \<in> set xs" by auto
    from Cons.IH [OF this Cons.prems(4-6)] show ?thesis by auto
  qed
qed

section \<open>The search loop\<close>

lemma search_pairs_find:
  assumes "\<forall>(a, b) \<in> set ps. wf_card n a \<and> wf_card n b"
  shows "search_pairs h ps =
    Inr (case find (hit h) ps of None \<Rightarrow> None | Some (a, b) \<Rightarrow> Some (a, b, third a b))"
  using assms
proof (induction ps)
  case Nil
  then show ?case by simp
next
  case (Cons ab ps)
  obtain a b where ab: "ab = (a, b)" by (cases ab)
  with Cons.prems have wf: "wf_card n a" "wf_card n b"
    and rest: "\<forall>(a, b) \<in> set ps. wf_card n a \<and> wf_card n b" by auto
  show ?case
    using Cons.IH [OF rest] calculate_third_card_eq [OF wf]
    by (simp add: ab hit_def)
qed

lemma pairs_checked_find:
  assumes "\<forall>(a, b) \<in> set ps. wf_card n a \<and> wf_card n b"
  shows "pairs_checked h ps \<le> length ps"
    and "find (hit h) ps = None \<Longrightarrow> pairs_checked h ps = length ps"
  using assms
proof (induction ps)
  case Nil
  { case 1 show ?case by simp }
  { case 2 show ?case by simp }
next
  case (Cons ab ps)
  obtain a b where ab: "ab = (a, b)" by (cases ab)
  { case 1
    then have wf: "wf_card n a" "wf_card n b"
      and rest: "\<forall>(a, b) \<in> set ps. wf_card n a \<and> wf_card n b" using ab by auto
    show ?case using Cons.IH(1) [OF rest] calculate_third_card_eq [OF wf] by (simp add: ab) }
  { case 2
    then have wf: "wf_card n a" "wf_card n b"
      and rest: "\<forall>(a, b) \<in> set ps. wf_card n a \<and> wf_card n b"
      and nf: "find (hit h) ps = None" and nh: "\<not> hit h (a, b)"
      using ab by (auto split: if_splits)
    show ?case using Cons.IH(2) [OF nf rest] calculate_third_card_eq [OF wf] nh
      by (simp add: ab hit_def) }
qed

lemma find_card_wf:
  assumes h: "wf_hand n h" and c: "wf_card n c"
  shows "find_card h c \<longleftrightarrow> c \<in> set (cards h)"
proof
  assume "find_card h c"
  then obtain c' where c': "c' \<in> set (cards h)" and v: "values c' = values c"
    by (auto simp: find_card_def)
  from h c' have "wf_card n c'" by (simp add: wf_hand_def)
  from wf_card_eqI [OF this c v] c' show "c \<in> set (cards h)" by simp
next
  assume "c \<in> set (cards h)"
  then show "find_card h c" by (auto simp: find_card_def)
qed

lemma wf_hand_pairs:
  assumes h: "wf_hand n h" and sub: "set ps \<subseteq> set (combinations2 (cards h))"
  shows "\<forall>(a, b) \<in> set ps. wf_card n a \<and> wf_card n b"
proof -
  { fix a b assume "(a, b) \<in> set ps"
    with sub have "(a, b) \<in> set (combinations2 (cards h))" by blast
    from combinations2_mem [OF this] h have "wf_card n a \<and> wf_card n b"
      by (simp add: wf_hand_def) }
  then show ?thesis by blast
qed

lemma find_set_pairs_set:
  assumes h: "wf_hand n h"
  shows "set (combinations2 (cards h)) =
    set (find_set_pairs h) \<union>
    set (take (length (cards h) div 2) (cards h)) \<times> set (drop (length (cards h) div 2) (cards h))"
proof -
  let ?k = "length (cards h) div 2"
  have "cards h = take ?k (cards h) @ drop ?k (cards h)" by simp
  then have "set (combinations2 (cards h)) =
      set (combinations2 (take ?k (cards h) @ drop ?k (cards h)))" by simp
  also have "\<dots> = set (combinations2 (take ?k (cards h))) \<union>
      set (take ?k (cards h)) \<times> set (drop ?k (cards h)) \<union>
      set (combinations2 (drop ?k (cards h)))"
    by (rule set_combinations2_append)
  finally show ?thesis using h by (auto simp: find_set_pairs_def wf_hand_def Let_def)
qed

lemma card_eq_wf:
  assumes "wf_card n a" "wf_card n b"
  shows "card_eq a b = Inr (a = b)"
proof -
  have "length (values a) = length (values b)"
    using wf_card_fields(3) [OF assms(1)] wf_card_fields(3) [OF assms(2)] by simp
  from card_eq_same_length [OF this] wf_card_eqI [OF assms] show ?thesis by auto
qed

lemma search_pairs_None:
  assumes "\<forall>(a, b) \<in> set ps. wf_card n a \<and> wf_card n b"
  shows "search_pairs h ps = Inr None \<longleftrightarrow> (\<forall>ab \<in> set ps. \<not> hit h ab)"
proof (cases "find (hit h) ps")
  case None
  then have "\<forall>ab \<in> set ps. \<not> hit h ab" by (auto simp: find_None_iff)
  then show ?thesis unfolding search_pairs_find [OF assms] using None by simp
next
  case (Some ab)
  then have "ab \<in> set ps" "hit h ab" by (auto simp: find_Some_iff)
  then have "\<not> (\<forall>ab \<in> set ps. \<not> hit h ab)" by blast
  then show ?thesis unfolding search_pairs_find [OF assms] using Some
    by (simp split: prod.splits)
qed

lemma search_pairs_Some:
  assumes "\<forall>(a, b) \<in> set ps. wf_card n a \<and> wf_card n b"
    and "search_pairs h ps = Inr (Some (a, b, c))"
  shows "(a, b) \<in> set ps \<and> c = third a b \<and> find_card h c"
proof -
  from assms(2) obtain ab where f: "find (hit h) ps = Some ab" and ab: "(a, b, c) = (fst ab, snd ab, third (fst ab) (snd ab))"
    unfolding search_pairs_find [OF assms(1)] by (auto split: option.splits)
  from f have "ab \<in> set ps" "hit h ab" by (auto simp: find_Some_iff)
  with ab show ?thesis by (auto simp: hit_def)
qed

lemma search_pairs_total:
  assumes "\<forall>(a, b) \<in> set ps. wf_card n a \<and> wf_card n b"
  shows "\<exists>r. search_pairs h ps = Inr r"
  unfolding search_pairs_find [OF assms] by blast

lemma find_set_pairs_sub:
  assumes h: "wf_hand n h"
  shows "set (find_set_pairs h) \<subseteq> set (combinations2 (cards h))"
  using find_set_pairs_set [OF h] by blast

section \<open>The pigeonhole argument\<close>

lemma hit_symmetric:
  assumes h: "wf_hand n h" and a: "a \<in> set (cards h)" and b: "b \<in> set (cards h)"
    and ne: "a \<noteq> b" and hit: "hit h (a, b)"
  shows "third a b \<in> set (cards h)" and "third a b \<noteq> a" and "third a b \<noteq> b"
    and "hit h (b, a)" and "hit h (a, third a b)" and "hit h (third a b, a)"
    and "hit h (b, third a b)" and "hit h (third a b, b)"
proof -
  from h a b have wa: "wf_card n a" and wb: "wf_card n b" by (simp_all add: wf_hand_def)
  note wc = wf_third [OF wa wb]
  from hit show c: "third a b \<in> set (cards h)"
    using find_card_wf [OF h wc] by (simp add: hit_def)
  show "third a b \<noteq> a" "third a b \<noteq> b" using third_distinct [OF wa wb ne] by simp_all
  show "hit h (b, a)" using hit third_commute [OF wa wb] by (simp add: hit_def)
  have "find_card h b" "find_card h a"
    using find_card_wf [OF h wb] find_card_wf [OF h wa] a b by simp_all
  then show "hit h (a, third a b)" "hit h (b, third a b)"
    using third_recover [OF wa wb] third_recover2 [OF wa wb] by (simp_all add: hit_def)
  then show "hit h (third a b, a)" "hit h (third a b, b)"
    using third_commute [OF wc wa] third_commute [OF wc wb] by (simp_all add: hit_def)
qed

lemma hit_cross:
  assumes h: "wf_hand n h"
    and a: "a \<in> set (take (length (cards h) div 2) (cards h))"
    and b: "b \<in> set (drop (length (cards h) div 2) (cards h))"
    and hit: "hit h (a, b)"
  shows "\<exists>ab \<in> set (find_set_pairs h). hit h ab"
proof -
  let ?k = "length (cards h) div 2"
  let ?c = "third a b"
  have d: "distinct (cards h)" and sz: "hand_size h = length (cards h)"
    using h by (simp_all add: wf_hand_def)
  have pairs: "set (find_set_pairs h) =
      set (combinations2 (take ?k (cards h))) \<union> set (combinations2 (drop ?k (cards h)))"
    by (simp add: find_set_pairs_def sz Let_def)
  from a b have am: "a \<in> set (cards h)" and bm: "b \<in> set (cards h)"
    by (auto dest: in_set_takeD in_set_dropD)
  from set_take_disj_set_drop_if_distinct [OF d, of ?k ?k] a b have ne: "a \<noteq> b" by auto
  note s = hit_symmetric [OF h am bm ne hit]
  have "set (cards h) = set (take ?k (cards h)) \<union> set (drop ?k (cards h))"
    by (metis append_take_drop_id set_append)
  with s(1) consider "?c \<in> set (take ?k (cards h))" | "?c \<in> set (drop ?k (cards h))" by blast
  then show ?thesis
  proof cases
    case 1
    from combinations2_total [OF a 1] s(2)
    have "(a, ?c) \<in> set (find_set_pairs h) \<or> (?c, a) \<in> set (find_set_pairs h)"
      unfolding pairs by auto
    with s(5,6) show ?thesis by blast
  next
    case 2
    from combinations2_total [OF b 2] s(3)
    have "(b, ?c) \<in> set (find_set_pairs h) \<or> (?c, b) \<in> set (find_set_pairs h)"
      unfolding pairs by auto
    with s(7,8) show ?thesis by blast
  qed
qed

lemma partition_complete:
  assumes h: "wf_hand n h"
  shows "(\<forall>ab \<in> set (find_set_pairs h). \<not> hit h ab) \<longleftrightarrow>
         (\<forall>ab \<in> set (combinations2 (cards h)). \<not> hit h ab)"
proof
  assume none: "\<forall>ab \<in> set (find_set_pairs h). \<not> hit h ab"
  show "\<forall>ab \<in> set (combinations2 (cards h)). \<not> hit h ab"
  proof
    fix ab assume "ab \<in> set (combinations2 (cards h))"
    with find_set_pairs_set [OF h] consider "ab \<in> set (find_set_pairs h)"
      | "ab \<in> set (take (length (cards h) div 2) (cards h)) \<times>
              set (drop (length (cards h) div 2) (cards h))" by blast
    then show "\<not> hit h ab"
    proof cases
      case 1
      with none show ?thesis by blast
    next
      case 2
      then obtain a b where ab: "ab = (a, b)"
        and a: "a \<in> set (take (length (cards h) div 2) (cards h))"
        and b: "b \<in> set (drop (length (cards h) div 2) (cards h))" by auto
      from hit_cross [OF h a b] none show ?thesis unfolding ab by blast
    qed
  qed
next
  assume "\<forall>ab \<in> set (combinations2 (cards h)). \<not> hit h ab"
  with find_set_pairs_sub [OF h] show "\<forall>ab \<in> set (find_set_pairs h). \<not> hit h ab" by blast
qed

lemma find_set_None:
  assumes h: "wf_hand n h"
  shows "find_set h = Inr None \<longleftrightarrow> (\<forall>ab \<in> set (find_set_pairs h). \<not> hit h ab)"
  unfolding find_set_def
  by (rule search_pairs_None [OF wf_hand_pairs [OF h find_set_pairs_sub [OF h]]])

lemma find_set_brute_force_None:
  assumes h: "wf_hand n h"
  shows "find_set_brute_force h = Inr None \<longleftrightarrow> (\<forall>ab \<in> set (combinations2 (cards h)). \<not> hit h ab)"
  unfolding find_set_brute_force_def
  by (rule search_pairs_None [OF wf_hand_pairs [OF h subset_refl]])

lemma exhaustive_iff_hit:
  assumes h: "wf_hand n h"
  shows "exhaustive_has_SET h \<longleftrightarrow> (\<exists>ab \<in> set (combinations2 (cards h)). hit h ab)"
proof
  assume "exhaustive_has_SET h"
  then obtain a b c where t: "(a, b, c) \<in> set (combinations3 (cards h))"
    and v: "is_valid_SET [a, b, c] = Inr True" by (auto simp: exhaustive_has_SET_def)
  from combinations3_mem [OF t] have ab: "(a, b) \<in> set (combinations2 (cards h))"
    and c: "c \<in> set (cards h)" by simp_all
  from combinations2_mem [OF ab] h c have w: "wf_card n a" "wf_card n b" "wf_card n c"
    by (simp_all add: wf_hand_def)
  from v is_valid_SET_third [OF w] have "c = third a b" by simp
  with c find_card_wf [OF h w(3)] have "hit h (a, b)" by (simp add: hit_def)
  with ab show "\<exists>ab \<in> set (combinations2 (cards h)). hit h ab" by blast
next
  assume "\<exists>ab \<in> set (combinations2 (cards h)). hit h ab"
  then obtain a b where ab: "(a, b) \<in> set (combinations2 (cards h))" and hit: "hit h (a, b)"
    by auto
  from h have d: "distinct (cards h)" by (simp add: wf_hand_def)
  from combinations2_mem [OF ab] have am: "a \<in> set (cards h)" and bm: "b \<in> set (cards h)"
    by simp_all
  from h am bm have wa: "wf_card n a" and wb: "wf_card n b" by (simp_all add: wf_hand_def)
  note wc = wf_third [OF wa wb]
  let ?c = "third a b"
  note ne = combinations2_neq [OF d ab]
  note s = hit_symmetric [OF h am bm ne hit]
  have v: "is_valid_SET [a, b, ?c] = Inr True" "is_valid_SET [a, ?c, b] = Inr True"
    "is_valid_SET [b, a, ?c] = Inr True" "is_valid_SET [b, ?c, a] = Inr True"
    "is_valid_SET [?c, a, b] = Inr True" "is_valid_SET [?c, b, a] = Inr True"
    using is_valid_SET_third [OF wa wb wc] is_valid_SET_third [OF wa wc wb]
      is_valid_SET_third [OF wb wa wc] is_valid_SET_third [OF wb wc wa]
      is_valid_SET_third [OF wc wa wb] is_valid_SET_third [OF wc wb wa]
      third_commute [OF wa wb] third_recover [OF wa wb] third_recover2 [OF wa wb]
      third_commute [OF wc wa] third_commute [OF wc wb]
    by simp_all
  from combinations3_total [OF am bm s(1) ne] s(2,3)
  have "(a, b, ?c) \<in> set (combinations3 (cards h)) \<or> (a, ?c, b) \<in> set (combinations3 (cards h)) \<or>
         (b, a, ?c) \<in> set (combinations3 (cards h)) \<or> (b, ?c, a) \<in> set (combinations3 (cards h)) \<or>
         (?c, a, b) \<in> set (combinations3 (cards h)) \<or> (?c, b, a) \<in> set (combinations3 (cards h))"
    by auto
  with v show "exhaustive_has_SET h" unfolding exhaustive_has_SET_def by fast
qed

section \<open>Correctness of the searches\<close>

lemma wf_test_valid_SET1: "wf_hand 4 test_valid_SET1"
  by (simp add: wf_hand_def wf_card_def test_valid_SET1_def Card_def)

lemma wf_test_invalid_SET1: "wf_hand 4 test_invalid_SET1"
  by (simp add: wf_hand_def wf_card_def test_invalid_SET1_def Card_def)

lemma wf_Card_example: "wf_card 4 (Card [0, 1, 2, 0])" "wf_card 4 (Card [1, 2, 2, 1])"
  by (simp_all add: wf_card_def)

text \<open>
  Claim C1. For every hand of same-shape cards with values in \<open>[0, 3)\<close>, \<open>find_set\<close> returns
  \<open>None\<close> if and only if \<open>find_set_brute_force\<close> returns \<open>None\<close>; equivalently, one finds a
  triple exactly when the other does. The proof is the pigeonhole argument: a pair that
  spans both halves and whose third card is in the hand has that third card in one of the
  halves, where it forms an enumerated pair with the card of the same half (\<open>hit_cross\<close>).
\<close>

theorem find_set_equiv_brute_force:
  assumes "wf_hand n h"
  shows "(find_set h = Inr None \<longleftrightarrow> find_set_brute_force h = Inr None) \<and>
         ((\<exists>t. find_set h = Inr (Some t)) \<longleftrightarrow> (\<exists>t. find_set_brute_force h = Inr (Some t)))"
proof -
  have e: "find_set h = Inr None \<longleftrightarrow> find_set_brute_force h = Inr None"
    unfolding find_set_None [OF assms] find_set_brute_force_None [OF assms]
    by (rule partition_complete [OF assms])
  obtain r1 where r1: "find_set h = Inr r1"
    using search_pairs_total [OF wf_hand_pairs [OF assms find_set_pairs_sub [OF assms]]]
    unfolding find_set_def by blast
  obtain r2 where r2: "find_set_brute_force h = Inr r2"
    using search_pairs_total [OF wf_hand_pairs [OF assms subset_refl]]
    unfolding find_set_brute_force_def by blast
  from e show ?thesis unfolding r1 r2 by (cases r1; cases r2) auto
qed

theorem find_set_equiv_brute_force_witness:
  "wf_hand 4 test_invalid_SET1 \<and>
   find_set test_invalid_SET1 = Inr None \<and> find_set_brute_force test_invalid_SET1 = Inr None"
proof -
  have b: "find_set_brute_force test_invalid_SET1 = Inr None"
    by (simp add: find_set_brute_force_def test_invalid_SET1_def calculate_third_card_def
        find_card_def Card_def upt_rec)
  from find_set_equiv_brute_force [OF wf_test_invalid_SET1] b wf_test_invalid_SET1
  show ?thesis by simp
qed

lemma returned_triple:
  assumes h: "wf_hand n h"
    and r: "find_set h = Inr (Some (c1, c2, c3)) \<or> find_set_brute_force h = Inr (Some (c1, c2, c3))"
  shows "c1 \<in> set (cards h)" and "c2 \<in> set (cards h)" and "c3 \<in> set (cards h)"
    and "c1 \<noteq> c2" and "c3 \<noteq> c1" and "c3 \<noteq> c2"
    and "wf_card n c1" and "wf_card n c2" and "wf_card n c3"
    and "c3 = third c1 c2"
proof -
  from r obtain ps where sub: "set ps \<subseteq> set (combinations2 (cards h))"
    and s: "search_pairs h ps = Inr (Some (c1, c2, c3))"
    using find_set_pairs_sub [OF h] unfolding find_set_def find_set_brute_force_def by blast
  from search_pairs_Some [OF wf_hand_pairs [OF h sub] s]
  have ps: "(c1, c2) \<in> set ps" and c3: "c3 = third c1 c2" and f: "find_card h c3" by blast+
  from ps sub have ab: "(c1, c2) \<in> set (combinations2 (cards h))" by blast
  from h have d: "distinct (cards h)" by (simp add: wf_hand_def)
  from combinations2_mem [OF ab] show m: "c1 \<in> set (cards h)" "c2 \<in> set (cards h)" by simp_all
  with h show w: "wf_card n c1" "wf_card n c2" by (simp_all add: wf_hand_def)
  show "wf_card n c3" unfolding c3 by (rule wf_third [OF w])
  show ne: "c1 \<noteq> c2" by (rule combinations2_neq [OF d ab])
  from f have hit: "hit h (c1, c2)" by (simp add: hit_def c3)
  from hit_symmetric(1-3) [OF h m ne hit]
  show "c3 \<in> set (cards h)" "c3 \<noteq> c1" "c3 \<noteq> c2" unfolding c3 by simp_all
  show "c3 = third c1 c2" by (rule c3)
qed

text \<open>
  Claim C2. Whenever \<open>find_set\<close> or \<open>find_set_brute_force\<close> returns a triple on a hand of
  same-shape cards with values in \<open>[0, 3)\<close>, the three cards are members of the hand, they
  are pairwise distinct (as values and under \<open>Card.__eq__\<close>), \<open>is_valid_SET\<close> accepts the
  triple, and at every property index the three values are all identical or all pairwise
  distinct. Moreover the third card derived from any two distinct cards of the hand equals
  neither of them, although the code never compares them.
\<close>

theorem found_triple_valid:
  assumes h: "wf_hand n h"
  shows "(\<forall>c1 c2 c3.
            find_set h = Inr (Some (c1, c2, c3)) \<or>
            find_set_brute_force h = Inr (Some (c1, c2, c3)) \<longrightarrow>
            c1 \<in> set (cards h) \<and> c2 \<in> set (cards h) \<and> c3 \<in> set (cards h) \<and>
            c1 \<noteq> c2 \<and> c3 \<noteq> c1 \<and> c3 \<noteq> c2 \<and>
            card_eq c1 c2 = Inr False \<and> card_eq c3 c1 = Inr False \<and>
            card_eq c3 c2 = Inr False \<and>
            is_valid_SET [c1, c2, c3] = Inr True \<and>
            (\<forall>i < n.
               (values c1 ! i = values c2 ! i \<and> values c2 ! i = values c3 ! i) \<or>
               (values c1 ! i \<noteq> values c2 ! i \<and> values c2 ! i \<noteq> values c3 ! i \<and>
                values c1 ! i \<noteq> values c3 ! i))) \<and>
         (\<forall>a \<in> set (cards h). \<forall>b \<in> set (cards h). a \<noteq> b \<longrightarrow>
            (\<exists>c. calculate_third_card a b = Inr c \<and> c \<noteq> a \<and> c \<noteq> b \<and>
                 card_eq c a = Inr False \<and> card_eq c b = Inr False))"
proof -
  have first: "c1 \<in> set (cards h) \<and> c2 \<in> set (cards h) \<and> c3 \<in> set (cards h) \<and>
            c1 \<noteq> c2 \<and> c3 \<noteq> c1 \<and> c3 \<noteq> c2 \<and>
            card_eq c1 c2 = Inr False \<and> card_eq c3 c1 = Inr False \<and>
            card_eq c3 c2 = Inr False \<and>
            is_valid_SET [c1, c2, c3] = Inr True \<and>
            (\<forall>i < n.
               (values c1 ! i = values c2 ! i \<and> values c2 ! i = values c3 ! i) \<or>
               (values c1 ! i \<noteq> values c2 ! i \<and> values c2 ! i \<noteq> values c3 ! i \<and>
                values c1 ! i \<noteq> values c3 ! i))"
    if r: "find_set h = Inr (Some (c1, c2, c3)) \<or>
           find_set_brute_force h = Inr (Some (c1, c2, c3))" for c1 c2 c3
  proof -
    note t = returned_triple [OF h r]
    have v: "is_valid_SET [c1, c2, c3] = Inr True"
      using is_valid_SET_third [OF t(7-9)] t(10) by simp
    with is_valid_SET3 [OF t(7-9)]
    have "\<forall>i < n. same_or_distinct (values c1 ! i) (values c2 ! i) (values c3 ! i)" by simp
    then have "\<forall>i < n.
        (values c1 ! i = values c2 ! i \<and> values c2 ! i = values c3 ! i) \<or>
        (values c1 ! i \<noteq> values c2 ! i \<and> values c2 ! i \<noteq> values c3 ! i \<and>
         values c1 ! i \<noteq> values c3 ! i)"
      unfolding same_or_distinct_def .
    moreover have "card_eq c1 c2 = Inr False" "card_eq c3 c1 = Inr False" "card_eq c3 c2 = Inr False"
      using card_eq_wf [OF t(7,8)] card_eq_wf [OF t(9,7)] card_eq_wf [OF t(9,8)] t(4-6)
      by simp_all
    ultimately show ?thesis using t(1-6) v by blast
  qed
  have second: "\<exists>c. calculate_third_card a b = Inr c \<and> c \<noteq> a \<and> c \<noteq> b \<and>
            card_eq c a = Inr False \<and> card_eq c b = Inr False"
    if a: "a \<in> set (cards h)" and b: "b \<in> set (cards h)" and ne: "a \<noteq> b" for a b
  proof -
    from h a b have w: "wf_card n a" "wf_card n b" by (simp_all add: wf_hand_def)
    note c = wf_third [OF w]
    note d = third_distinct [OF w ne]
    have "card_eq (third a b) a = Inr False" "card_eq (third a b) b = Inr False"
      using card_eq_wf [OF c w(1)] card_eq_wf [OF c w(2)] d by simp_all
    with calculate_third_card_eq [OF w] d show ?thesis by blast
  qed
  from first second show ?thesis by blast
qed

theorem found_triple_valid_witness:
  "wf_hand 4 test_valid_SET1 \<and>
   find_set test_valid_SET1 = Inr (Some (Card [1, 2, 2, 1], Card [2, 0, 2, 2], Card [0, 1, 2, 0])) \<and>
   is_valid_SET [Card [1, 2, 2, 1], Card [2, 0, 2, 2], Card [0, 1, 2, 0]] = Inr True \<and>
   card_eq (Card [0, 1, 2, 0]) (Card [1, 2, 2, 1]) = Inr False"
proof -
  have f: "find_set test_valid_SET1 =
      Inr (Some (Card [1, 2, 2, 1], Card [2, 0, 2, 2], Card [0, 1, 2, 0]))"
    by (simp add: find_set_def find_set_pairs_def test_valid_SET1_def calculate_third_card_def
        find_card_def Card_def upt_rec)
  from found_triple_valid [OF wf_test_valid_SET1] f
  have "is_valid_SET [Card [1, 2, 2, 1], Card [2, 0, 2, 2], Card [0, 1, 2, 0]] = Inr True"
    and "card_eq (Card [0, 1, 2, 0]) (Card [1, 2, 2, 1]) = Inr False"
    by blast+
  with f wf_test_valid_SET1 show ?thesis by simp
qed

text \<open>
  Claim C3. On a hand of same-shape cards with values in \<open>[0, 3)\<close>, \<open>find_set_brute_force\<close>
  returns \<open>None\<close> if and only if no three-element subset of the hand passes
  \<open>is_valid_SET\<close>.
\<close>

theorem brute_force_complete:
  assumes "wf_hand n h"
  shows "find_set_brute_force h = Inr None \<longleftrightarrow> \<not> exhaustive_has_SET h"
  unfolding find_set_brute_force_None [OF assms] exhaustive_iff_hit [OF assms] by blast

theorem brute_force_complete_witness:
  "wf_hand 4 test_valid_SET1 \<and> exhaustive_has_SET test_valid_SET1 \<and>
   find_set_brute_force test_valid_SET1 \<noteq> Inr None"
proof -
  have "find_set_brute_force test_valid_SET1 \<noteq> Inr None"
    by (simp add: find_set_brute_force_def test_valid_SET1_def calculate_third_card_def
        find_card_def Card_def upt_rec)
  with brute_force_complete [OF wf_test_valid_SET1] wf_test_valid_SET1
  show ?thesis by simp
qed

section \<open>The third-card rule\<close>

lemma third_val_unique:
  assumes "x \<in> {0, 1, 2}" "y \<in> {0, 1, 2}" "x \<noteq> y"
  shows "(u \<in> {0, 1, 2} \<and> u \<noteq> x \<and> u \<noteq> y) \<longleftrightarrow> u = third_val x y"
  using assms by (elim insertE emptyE; auto simp: third_val_def)

text \<open>
  Claim C4. For two cards \<open>a\<close> and \<open>b\<close> of the same property count with values in \<open>[0, 3)\<close>,
  \<open>calculate_third_card\<close> returns a card \<open>c\<close> that, at every index, repeats the common value
  where \<open>a\<close> and \<open>b\<close> agree and otherwise holds the one value of \<open>{0, 1, 2}\<close> distinct from
  both; \<open>c\<close> is the only card of that shape that \<open>is_valid_SET\<close> accepts together with \<open>a\<close>
  and \<open>b\<close>.
\<close>

theorem calculate_third_card_rule:
  assumes a: "wf_card n a" and b: "wf_card n b"
  shows "\<exists>c. calculate_third_card a b = Inr c \<and> length (values c) = n \<and>
    (\<forall>i < n.
       (values a ! i = values b ! i \<longrightarrow> values c ! i = values a ! i) \<and>
       (values a ! i \<noteq> values b ! i \<longrightarrow>
          (\<forall>u. (u \<in> {0, 1, 2} \<and> u \<noteq> values a ! i \<and> u \<noteq> values b ! i) \<longleftrightarrow> u = values c ! i))) \<and>
    (\<forall>d. wf_card n d \<longrightarrow> (is_valid_SET [a, b, d] = Inr True \<longleftrightarrow> d = c))"
proof (intro exI conjI allI impI)
  show "calculate_third_card a b = Inr (third a b)" by (rule calculate_third_card_eq [OF a b])
  show "length (values (third a b)) = n" using wf_card_fields(3) [OF wf_third [OF a b]] .
next
  fix i assume i: "i < n" and e: "values a ! i = values b ! i"
  show "values (third a b) ! i = values a ! i"
    using e by (simp add: third_nth [OF a b i] third_val_def)
next
  fix i u assume i: "i < n" and ne: "values a ! i \<noteq> values b ! i"
  show "(u \<in> {0, 1, 2} \<and> u \<noteq> values a ! i \<and> u \<noteq> values b ! i) \<longleftrightarrow> u = values (third a b) ! i"
    unfolding third_nth [OF a b i]
    by (rule third_val_unique [OF wf_card_fields(4) [OF a i] wf_card_fields(4) [OF b i] ne])
next
  fix d assume d: "wf_card n d"
  show "is_valid_SET [a, b, d] = Inr True \<longleftrightarrow> d = third a b"
    by (simp add: is_valid_SET_third [OF a b d])
qed

theorem calculate_third_card_rule_witness:
  "wf_card 4 (Card [0, 1, 2, 0]) \<and> wf_card 4 (Card [1, 2, 2, 1]) \<and>
   calculate_third_card (Card [0, 1, 2, 0]) (Card [1, 2, 2, 1]) = Inr (Card [2, 0, 2, 2]) \<and>
   is_valid_SET [Card [0, 1, 2, 0], Card [1, 2, 2, 1], Card [2, 0, 2, 2]] = Inr True"
proof -
  have c: "calculate_third_card (Card [0, 1, 2, 0]) (Card [1, 2, 2, 1]) = Inr (Card [2, 0, 2, 2])"
    by (simp add: calculate_third_card_def Card_def upt_rec)
  have w: "wf_card 4 (Card [2, 0, 2, 2])" by (simp add: wf_card_def)
  from calculate_third_card_rule [OF wf_Card_example] c w wf_Card_example
  show ?thesis by auto
qed

text \<open>
  Claim C6. For cards \<open>a\<close> and \<open>b\<close> of the same property count with values in \<open>[0, 3)\<close>
  (distinct or not), \<open>calculate_third_card a b\<close> and \<open>calculate_third_card b a\<close> return equal
  cards, and completing \<open>a\<close> with the third card returns \<open>b\<close>; equality holds both as
  values and under \<open>Card.__eq__\<close>.
\<close>

theorem calculate_third_card_symmetry:
  assumes a: "wf_card n a" and b: "wf_card n b"
  shows "\<exists>c c' b'. calculate_third_card a b = Inr c \<and> calculate_third_card b a = Inr c' \<and>
    c = c' \<and> card_eq c c' = Inr True \<and>
    calculate_third_card a c = Inr b' \<and> b' = b \<and> card_eq b' b = Inr True"
proof -
  note c = wf_third [OF a b]
  have "calculate_third_card a b = Inr (third a b)" by (rule calculate_third_card_eq [OF a b])
  moreover have "calculate_third_card b a = Inr (third a b)"
    using calculate_third_card_eq [OF b a] third_commute [OF a b] by simp
  moreover have "calculate_third_card a (third a b) = Inr b"
    using calculate_third_card_eq [OF a c] third_recover [OF a b] by simp
  moreover have "card_eq (third a b) (third a b) = Inr True" "card_eq b b = Inr True"
    using card_eq_wf [OF c c] card_eq_wf [OF b b] by simp_all
  ultimately show ?thesis by blast
qed

theorem calculate_third_card_symmetry_witness:
  "wf_card 4 (Card [0, 1, 2, 0]) \<and> wf_card 4 (Card [1, 2, 2, 1]) \<and>
   calculate_third_card (Card [1, 2, 2, 1]) (Card [0, 1, 2, 0]) = Inr (Card [2, 0, 2, 2]) \<and>
   calculate_third_card (Card [0, 1, 2, 0]) (Card [2, 0, 2, 2]) = Inr (Card [1, 2, 2, 1])"
proof -
  have c: "calculate_third_card (Card [0, 1, 2, 0]) (Card [1, 2, 2, 1]) = Inr (Card [2, 0, 2, 2])"
    by (simp add: calculate_third_card_def Card_def upt_rec)
  from calculate_third_card_symmetry [OF wf_Card_example] c wf_Card_example
  show ?thesis by auto
qed

text \<open>
  Claim C10. For cards \<open>a\<close> and \<open>b\<close> with the same property count \<open>n\<close> and values in
  \<open>[0, 3)\<close>, \<open>calculate_third_card\<close> returns a card whose attribute \<open>p\<close> is \<open>n\<close>, whose \<open>v\<close> is
  3, and whose values list has length \<open>n\<close> with every value in \<open>[0, 3)\<close>.
\<close>

theorem calculate_third_card_wf:
  assumes a: "wf_card n a" and b: "wf_card n b"
  shows "\<exists>c. calculate_third_card a b = Inr c \<and> wf_card n c \<and> p c = n \<and> v c = 3 \<and>
    length (values c) = n \<and> (\<forall>x \<in> set (values c). 0 \<le> x \<and> x < 3)"
proof -
  note c = wf_third [OF a b]
  from c have "\<forall>x \<in> set (values (third a b)). 0 \<le> x \<and> x < 3" by (simp add: wf_card_def)
  with calculate_third_card_eq [OF a b] c wf_card_fields(1-3) [OF c] show ?thesis by blast
qed

theorem calculate_third_card_wf_witness:
  "wf_card 4 (Card [0, 1, 2, 0]) \<and> wf_card 4 (Card [1, 2, 2, 1]) \<and>
   (\<exists>c. calculate_third_card (Card [0, 1, 2, 0]) (Card [1, 2, 2, 1]) = Inr c \<and> wf_card 4 c)"
  using calculate_third_card_wf [OF wf_Card_example] wf_Card_example by blast

section \<open>The partition of \<open>find_set\<close>\<close>

lemma wf_spanning_hand: "wf_hand 2 spanning_hand"
  by (simp add: wf_hand_def wf_card_def spanning_hand_def Card_def)

lemma miss_iff:
  assumes "wf_card n a" "wf_card n b"
  shows "(\<exists>c. calculate_third_card a b = Inr c \<and> \<not> find_card h c) \<longleftrightarrow> \<not> hit h (a, b)"
  by (simp add: calculate_third_card_eq [OF assms] hit_def)

lemma search_pairs_first_hit:
  assumes "\<forall>(a, b) \<in> set ps. wf_card n a \<and> wf_card n b"
    and "search_pairs h ps = Inr (Some (c1, c2, c3))"
  shows "\<exists>k < length ps. ps ! k = (c1, c2) \<and> pairs_checked h ps = k + 1 \<and>
           (\<forall>j < k. \<not> hit h (ps ! j))"
  using assms
proof (induction ps)
  case Nil
  then show ?case by simp
next
  case (Cons ab ps)
  obtain a b where ab: "ab = (a, b)" by (cases ab)
  with Cons.prems(1) have wf: "wf_card n a" "wf_card n b"
    and rest: "\<forall>(a, b) \<in> set ps. wf_card n a \<and> wf_card n b" by auto
  note c = calculate_third_card_eq [OF wf]
  show ?case
  proof (cases "hit h (a, b)")
    case True
    then have f: "find_card h (third a b)" by (simp add: hit_def)
    with Cons.prems(2) have "c1 = a" "c2 = b" by (simp_all add: ab c)
    moreover have "pairs_checked h (ab # ps) = 1" using f by (simp add: ab c)
    ultimately have "(ab # ps) ! 0 = (c1, c2) \<and> pairs_checked h (ab # ps) = 0 + 1 \<and>
        (\<forall>j < 0. \<not> hit h ((ab # ps) ! j))" by (simp add: ab)
    then show ?thesis by blast
  next
    case False
    then have f: "\<not> find_card h (third a b)" by (simp add: hit_def)
    with Cons.prems(2) have "search_pairs h ps = Inr (Some (c1, c2, c3))" by (simp add: ab c)
    from Cons.IH [OF rest this] obtain k where k: "k < length ps" "ps ! k = (c1, c2)"
      "pairs_checked h ps = k + 1" "\<forall>j < k. \<not> hit h (ps ! j)" by blast
    have "\<forall>j < Suc k. \<not> hit h ((ab # ps) ! j)"
    proof (intro allI impI)
      fix j assume "j < Suc k"
      then show "\<not> hit h ((ab # ps) ! j)" using False k(4) by (cases j) (simp_all add: ab)
    qed
    moreover have "pairs_checked h (ab # ps) = Suc k + 1" using f k(3) by (simp add: ab c)
    ultimately have "Suc k < length (ab # ps) \<and> (ab # ps) ! Suc k = (c1, c2) \<and>
        pairs_checked h (ab # ps) = Suc k + 1 \<and> (\<forall>j < Suc k. \<not> hit h ((ab # ps) ! j))"
      using k(1,2) by simp
    then show ?thesis by blast
  qed
qed

text \<open>
  Claim C5. \<open>find_set\<close> splits the ordered card list of a hand of \<open>m\<close> cards into the first
  \<open>m div 2\<close> cards and the remaining \<open>(m + 1) div 2\<close> cards, lists the pairs of the first part
  and then the pairs of the second part, so that both cards of every pair lie in the same
  part, no pair has one card in each, and any two distinct cards of one part form a pair
  of the list in one of the two orders; the list has
  \<open>(m div 2 choose 2) + ((m + 1) div 2 choose 2)\<close> pairs, the loop never checks more, and it
  checks exactly that many when it returns \<open>None\<close>. The result of \<open>find_set\<close> is that of the
  loop over this list: it is \<open>None\<close> exactly when the third card of every listed pair is
  missing from the hand, and a returned triple consists of a listed pair (so both cards
  lie in the same part), its third card, found in the hand, and it is the first such pair
  of the list: every earlier pair misses, and the number of pairs checked is its position.
\<close>

theorem find_set_partition:
  assumes h: "wf_hand n h"
  shows "let m = hand_size h;
             part1 = take (m div 2) (cards h);
             part2 = drop (m div 2) (cards h) in
    m = length (cards h) \<and> part1 @ part2 = cards h \<and>
    length part1 = m div 2 \<and> length part2 = (m + 1) div 2 \<and>
    find_set_pairs h = combinations2 part1 @ combinations2 part2 \<and>
    (\<forall>(a, b) \<in> set (find_set_pairs h).
       (a \<in> set part1 \<and> b \<in> set part1) \<or> (a \<in> set part2 \<and> b \<in> set part2)) \<and>
    (\<forall>a \<in> set part1. \<forall>b \<in> set part2.
       (a, b) \<notin> set (find_set_pairs h) \<and> (b, a) \<notin> set (find_set_pairs h)) \<and>
    (\<forall>a b. a \<noteq> b \<and>
       ((a \<in> set part1 \<and> b \<in> set part1) \<or> (a \<in> set part2 \<and> b \<in> set part2)) \<longrightarrow>
       (a, b) \<in> set (find_set_pairs h) \<or> (b, a) \<in> set (find_set_pairs h)) \<and>
    length (find_set_pairs h) = (m div 2 choose 2) + ((m + 1) div 2 choose 2) \<and>
    pairs_checked h (find_set_pairs h) \<le> (m div 2 choose 2) + ((m + 1) div 2 choose 2) \<and>
    (find_set h = Inr None \<longrightarrow>
       pairs_checked h (find_set_pairs h) = (m div 2 choose 2) + ((m + 1) div 2 choose 2)) \<and>
    find_set h = search_pairs h (find_set_pairs h) \<and>
    (find_set h = Inr None \<longleftrightarrow>
       (\<forall>(a, b) \<in> set (find_set_pairs h).
          \<exists>c. calculate_third_card a b = Inr c \<and> \<not> find_card h c)) \<and>
    (\<forall>c1 c2 c3. find_set h = Inr (Some (c1, c2, c3)) \<longrightarrow>
       ((c1 \<in> set part1 \<and> c2 \<in> set part1) \<or> (c1 \<in> set part2 \<and> c2 \<in> set part2)) \<and>
       calculate_third_card c1 c2 = Inr c3 \<and> find_card h c3 \<and>
       (\<exists>k < length (find_set_pairs h).
          find_set_pairs h ! k = (c1, c2) \<and>
          (\<forall>j < k. \<exists>c. calculate_third_card (fst (find_set_pairs h ! j))
                             (snd (find_set_pairs h ! j)) = Inr c \<and> \<not> find_card h c) \<and>
          pairs_checked h (find_set_pairs h) = k + 1))"
proof -
  define m where "m = hand_size h"
  define part1 where "part1 = take (m div 2) (cards h)"
  define part2 where "part2 = drop (m div 2) (cards h)"
  have d: "distinct (cards h)" and m: "m = length (cards h)"
    using h by (simp_all add: wf_hand_def m_def)
  have app: "part1 @ part2 = cards h" by (simp add: part1_def part2_def)
  have l1: "length part1 = m div 2" using m by (simp add: part1_def)
  have l2: "length part2 = (m + 1) div 2" using m by (simp add: part2_def)
  have pairs: "find_set_pairs h = combinations2 part1 @ combinations2 part2"
    by (simp add: find_set_pairs_def Let_def part1_def part2_def m_def)
  have disj: "set part1 \<inter> set part2 = {}"
    unfolding part1_def part2_def by (rule set_take_disj_set_drop_if_distinct [OF d]) simp
  have within: "\<forall>(a, b) \<in> set (find_set_pairs h).
       (a \<in> set part1 \<and> b \<in> set part1) \<or> (a \<in> set part2 \<and> b \<in> set part2)"
    unfolding pairs by (auto dest: combinations2_mem)
  have across: "\<forall>a \<in> set part1. \<forall>b \<in> set part2.
       (a, b) \<notin> set (find_set_pairs h) \<and> (b, a) \<notin> set (find_set_pairs h)"
    using disj unfolding pairs by (auto dest: combinations2_mem)
  have every: "\<forall>a b. a \<noteq> b \<and>
       ((a \<in> set part1 \<and> b \<in> set part1) \<or> (a \<in> set part2 \<and> b \<in> set part2)) \<longrightarrow>
       (a, b) \<in> set (find_set_pairs h) \<or> (b, a) \<in> set (find_set_pairs h)"
  proof (intro allI impI)
    fix a b
    assume "a \<noteq> b \<and>
       ((a \<in> set part1 \<and> b \<in> set part1) \<or> (a \<in> set part2 \<and> b \<in> set part2))"
    then consider "a \<in> set part1" "b \<in> set part1" "a \<noteq> b"
      | "a \<in> set part2" "b \<in> set part2" "a \<noteq> b" by blast
    then show "(a, b) \<in> set (find_set_pairs h) \<or> (b, a) \<in> set (find_set_pairs h)"
    proof cases
      case 1
      from combinations2_total [OF this] show ?thesis unfolding pairs by auto
    next
      case 2
      from combinations2_total [OF this] show ?thesis unfolding pairs by auto
    qed
  qed
  have len: "length (find_set_pairs h) = (m div 2 choose 2) + ((m + 1) div 2 choose 2)"
    unfolding pairs by (simp add: length_combinations2 l1 l2)
  note wf = wf_hand_pairs [OF h find_set_pairs_sub [OF h]]
  have le: "pairs_checked h (find_set_pairs h) \<le> (m div 2 choose 2) + ((m + 1) div 2 choose 2)"
    using pairs_checked_find(1) [OF wf, of h] len by simp
  have worst: "find_set h = Inr None \<longrightarrow>
       pairs_checked h (find_set_pairs h) = (m div 2 choose 2) + ((m + 1) div 2 choose 2)"
  proof
    assume "find_set h = Inr None"
    then have "find (hit h) (find_set_pairs h) = None"
      unfolding find_set_None [OF h] by (simp add: find_None_iff)
    from pairs_checked_find(2) [OF wf this] len
    show "pairs_checked h (find_set_pairs h) = (m div 2 choose 2) + ((m + 1) div 2 choose 2)"
      by simp
  qed
  have loop: "find_set h = search_pairs h (find_set_pairs h)" by (rule find_set_def)
  have none: "find_set h = Inr None \<longleftrightarrow>
       (\<forall>(a, b) \<in> set (find_set_pairs h).
          \<exists>c. calculate_third_card a b = Inr c \<and> \<not> find_card h c)"
  proof -
    have "(\<exists>c. calculate_third_card a b = Inr c \<and> \<not> find_card h c) \<longleftrightarrow> \<not> hit h (a, b)"
      if "(a, b) \<in> set (find_set_pairs h)" for a b
      using wf that by (intro miss_iff) auto
    then show ?thesis unfolding find_set_None [OF h] by fastforce
  qed
  have some: "\<forall>c1 c2 c3. find_set h = Inr (Some (c1, c2, c3)) \<longrightarrow>
       ((c1 \<in> set part1 \<and> c2 \<in> set part1) \<or> (c1 \<in> set part2 \<and> c2 \<in> set part2)) \<and>
       calculate_third_card c1 c2 = Inr c3 \<and> find_card h c3 \<and>
       (\<exists>k < length (find_set_pairs h).
          find_set_pairs h ! k = (c1, c2) \<and>
          (\<forall>j < k. \<exists>c. calculate_third_card (fst (find_set_pairs h ! j))
                             (snd (find_set_pairs h ! j)) = Inr c \<and> \<not> find_card h c) \<and>
          pairs_checked h (find_set_pairs h) = k + 1)"
  proof (intro allI impI)
    fix c1 c2 c3 assume r: "find_set h = Inr (Some (c1, c2, c3))"
    then have s: "search_pairs h (find_set_pairs h) = Inr (Some (c1, c2, c3))"
      by (simp add: find_set_def)
    from search_pairs_Some [OF wf s] have mem: "(c1, c2) \<in> set (find_set_pairs h)"
      and c3: "c3 = third c1 c2" and f: "find_card h c3" by blast+
    from mem within have half:
      "(c1 \<in> set part1 \<and> c2 \<in> set part1) \<or> (c1 \<in> set part2 \<and> c2 \<in> set part2)" by blast
    from mem wf have w: "wf_card n c1" "wf_card n c2" by auto
    have calc: "calculate_third_card c1 c2 = Inr c3"
      using calculate_third_card_eq [OF w] c3 by simp
    from search_pairs_first_hit [OF wf s] obtain k where k: "k < length (find_set_pairs h)"
      "find_set_pairs h ! k = (c1, c2)" "pairs_checked h (find_set_pairs h) = k + 1"
      "\<forall>j < k. \<not> hit h (find_set_pairs h ! j)" by blast
    have earlier: "\<forall>j < k. \<exists>c. calculate_third_card (fst (find_set_pairs h ! j))
        (snd (find_set_pairs h ! j)) = Inr c \<and> \<not> find_card h c"
    proof (intro allI impI)
      fix j assume j: "j < k"
      with k(1) have "find_set_pairs h ! j \<in> set (find_set_pairs h)" by simp
      with wf have wj: "wf_card n (fst (find_set_pairs h ! j))"
        "wf_card n (snd (find_set_pairs h ! j))" by (auto simp: case_prod_beta)
      from k(4) j have "\<not> hit h (fst (find_set_pairs h ! j), snd (find_set_pairs h ! j))"
        by simp
      with miss_iff [OF wj, of h]
      show "\<exists>c. calculate_third_card (fst (find_set_pairs h ! j))
          (snd (find_set_pairs h ! j)) = Inr c \<and> \<not> find_card h c" by blast
    qed
    from half calc f k(1-3) earlier
    show "((c1 \<in> set part1 \<and> c2 \<in> set part1) \<or> (c1 \<in> set part2 \<and> c2 \<in> set part2)) \<and>
       calculate_third_card c1 c2 = Inr c3 \<and> find_card h c3 \<and>
       (\<exists>k < length (find_set_pairs h).
          find_set_pairs h ! k = (c1, c2) \<and>
          (\<forall>j < k. \<exists>c. calculate_third_card (fst (find_set_pairs h ! j))
                             (snd (find_set_pairs h ! j)) = Inr c \<and> \<not> find_card h c) \<and>
          pairs_checked h (find_set_pairs h) = k + 1)" by blast
  qed
  show ?thesis unfolding Let_def m_def [symmetric] part1_def [symmetric] part2_def [symmetric]
    using m app l1 l2 pairs within across every len le worst loop none some
    by - (intro conjI; assumption)
qed

theorem find_set_partition_witness:
  "wf_hand 4 test_invalid_SET1 \<and>
   find_set_pairs test_invalid_SET1 = [(Card [0, 2, 2, 1], Card [0, 0, 0, 2])] \<and>
   find_set test_invalid_SET1 = Inr None \<and>
   pairs_checked test_invalid_SET1 (find_set_pairs test_invalid_SET1) = 1 \<and>
   wf_hand 2 spanning_hand \<and>
   find_set_pairs spanning_hand = [(Card [0, 0], Card [0, 1]), (Card [1, 1], Card [2, 2])] \<and>
   find_set spanning_hand = Inr (Some (Card [1, 1], Card [2, 2], Card [0, 0])) \<and>
   pairs_checked spanning_hand (find_set_pairs spanning_hand) = 2 \<and>
   find_set_brute_force spanning_hand = Inr (Some (Card [0, 0], Card [1, 1], Card [2, 2])) \<and>
   (Card [0, 0], Card [1, 1]) \<notin> set (find_set_pairs spanning_hand)"
proof -
  have p: "find_set_pairs test_invalid_SET1 = [(Card [0, 2, 2, 1], Card [0, 0, 0, 2])]"
    by (simp add: find_set_pairs_def test_invalid_SET1_def)
  have f: "find_set test_invalid_SET1 = Inr None"
    unfolding find_set_def p
    by (simp add: test_invalid_SET1_def calculate_third_card_def find_card_def Card_def upt_rec)
  have s: "hand_size test_invalid_SET1 = 3" by (simp add: test_invalid_SET1_def)
  from find_set_partition [OF wf_test_invalid_SET1] f
  have "pairs_checked test_invalid_SET1 (find_set_pairs test_invalid_SET1) =
      (3 div 2 choose 2) + ((3 + 1) div 2 choose 2)"
    unfolding Let_def s by blast
  moreover have "(3 div 2 choose 2) + ((3 + 1) div 2 choose 2) = (1::nat)"
    by (simp add: binomial_eq_0)
  ultimately have c1: "pairs_checked test_invalid_SET1 (find_set_pairs test_invalid_SET1) = 1"
    by simp
  have q: "find_set_pairs spanning_hand =
      [(Card [0, 0], Card [0, 1]), (Card [1, 1], Card [2, 2])]"
    by (simp add: find_set_pairs_def spanning_hand_def)
  have g: "find_set spanning_hand = Inr (Some (Card [1, 1], Card [2, 2], Card [0, 0]))"
    unfolding find_set_def q
    by (simp add: spanning_hand_def calculate_third_card_def find_card_def Card_def upt_rec)
  have b: "find_set_brute_force spanning_hand =
      Inr (Some (Card [0, 0], Card [1, 1], Card [2, 2]))"
    by (simp add: find_set_brute_force_def spanning_hand_def calculate_third_card_def
        find_card_def Card_def upt_rec)
  from find_set_partition [OF wf_spanning_hand] g
  obtain k where k: "k < length (find_set_pairs spanning_hand)"
    "find_set_pairs spanning_hand ! k = (Card [1, 1], Card [2, 2])"
    "pairs_checked spanning_hand (find_set_pairs spanning_hand) = k + 1"
    unfolding Let_def by blast
  from k(1) have "k = 0 \<or> k = 1" unfolding q by auto
  with k(2) have "k = 1" unfolding q by (auto simp: Card_def)
  with k(3) have c2: "pairs_checked spanning_hand (find_set_pairs spanning_hand) = 2" by simp
  have n: "(Card [0, 0], Card [1, 1]) \<notin> set (find_set_pairs spanning_hand)"
    unfolding q by (simp add: Card_def)
  from p f c1 wf_test_invalid_SET1 wf_spanning_hand q g c2 b n show ?thesis by blast
qed

section \<open>Not finding a SET\<close>

text \<open>
  Claim C9. On a hand of same-shape cards with values in \<open>[0, 3)\<close>, both searches return a
  result and raise nothing; when the hand holds no valid SET, the result of both is \<open>None\<close>.
\<close>

theorem not_found_is_None:
  assumes h: "wf_hand n h"
  shows "(\<exists>r. find_set h = Inr r) \<and> (\<exists>r. find_set_brute_force h = Inr r) \<and>
    (\<not> exhaustive_has_SET h \<longrightarrow> find_set h = Inr None \<and> find_set_brute_force h = Inr None)"
proof (intro conjI impI)
  show "\<exists>r. find_set h = Inr r"
    using search_pairs_total [OF wf_hand_pairs [OF h find_set_pairs_sub [OF h]]]
    unfolding find_set_def .
  show "\<exists>r. find_set_brute_force h = Inr r"
    using search_pairs_total [OF wf_hand_pairs [OF h subset_refl]]
    unfolding find_set_brute_force_def .
next
  assume "\<not> exhaustive_has_SET h"
  then have none: "\<forall>ab \<in> set (combinations2 (cards h)). \<not> hit h ab"
    unfolding exhaustive_iff_hit [OF h] by blast
  then show "find_set_brute_force h = Inr None"
    unfolding find_set_brute_force_None [OF h] .
  from none show "find_set h = Inr None"
    unfolding find_set_None [OF h] partition_complete [OF h] .
qed

theorem not_found_is_None_witness:
  "wf_hand 4 test_invalid_SET1 \<and> \<not> exhaustive_has_SET test_invalid_SET1 \<and>
   find_set test_invalid_SET1 = Inr None \<and> find_set_brute_force test_invalid_SET1 = Inr None"
proof -
  have "\<not> exhaustive_has_SET test_invalid_SET1"
    by (simp add: exhaustive_has_SET_def test_invalid_SET1_def is_valid_SET_def Card_def upt_rec)
  with not_found_is_None [OF wf_test_invalid_SET1] wf_test_invalid_SET1
  show ?thesis by simp
qed

section \<open>Equality and hashing of cards of different lengths\<close>

text \<open>
  What \<open>Card.__eq__\<close> computes when the right-hand card is at least as long: whether the
  left-hand values are a prefix of the right-hand values.
\<close>

lemma card_eq_prefix:
  assumes "length (values a) \<le> length (values b)"
  shows "card_eq a b = Inr (values a = take (length (values a)) (values b))"
  using eq_loop_enumerate [of 0 "values a" "values b"] assms by (simp add: card_eq_def)

lemma card_hash_same_length:
  assumes "length (values a) = length (values b)" and "card_eq a b = Inr True"
  shows "card_hash H a = card_hash H b"
  using assms card_eq_same_length [OF assms(1)] by (simp add: card_hash_def tuple_of_def)

text \<open>
  Claim C7. \<open>Card.__eq__\<close> compares no lengths: with a shorter right-hand card whose values
  are a prefix it raises \<open>IndexError\<close>, and with a longer right-hand card it returns \<open>True\<close>
  although the value lists differ.
\<close>

theorem card_eq_different_lengths:
  "card_eq (Card [0, 1]) (Card [0]) = Inl IndexError \<and>
   card_eq (Card [0]) (Card [0, 1]) = Inr True \<and>
   values (Card [0]) \<noteq> values (Card [0, 1])"
  by (simp add: card_eq_def)

text \<open>
  Claim C8. \<open>Card.__eq__\<close> holds between the cards \<open>[0]\<close> and \<open>[0, 1]\<close>, while
  \<open>Card.__hash__\<close> hashes two different tuples for them; any hash that separates the two
  tuples gives the equal cards different keys.
\<close>

theorem card_hash_different_lengths:
  "card_eq (Card [0]) (Card [0, 1]) = Inr True \<and>
   tuple_of (Card [0]) \<noteq> tuple_of (Card [0, 1]) \<and>
   card_hash (\<lambda>t. t) (Card [0]) \<noteq> card_hash (\<lambda>t. t) (Card [0, 1])"
  by (simp add: card_eq_def tuple_of_def card_hash_def)

section \<open>Construction of hands\<close>

lemma Hand_init_test_valid_SET1:
  "Hand_init (Some [Card [0, 1, 2, 0], Card [1, 2, 2, 1], Card [2, 0, 2, 2]]) test_valid_SET1"
  by (simp add: Hand_init_def test_valid_SET1_def)

lemma Hand_init_wf:
  assumes "Hand_init (Some cs) h" and "\<forall>c \<in> set cs. wf_card n c"
  shows "wf_hand n h" and "set (cards h) = set cs"
proof -
  from assms(1) have d: "distinct (map values (cards h))" and sub: "set (cards h) \<subseteq> set cs"
    and sup: "set (map values cs) \<subseteq> set (map values (cards h))"
    and sz: "hand_size h = length (cards h)"
    by (simp_all add: Hand_init_def)
  from d have "distinct (cards h)" by (simp add: distinct_map)
  with sub sz assms(2) show "wf_hand n h" by (auto simp: wf_hand_def)
  show "set (cards h) = set cs"
  proof
    show "set (cards h) \<subseteq> set cs" by (rule sub)
    show "set cs \<subseteq> set (cards h)"
    proof
      fix c assume c: "c \<in> set cs"
      with sup obtain c' where c': "c' \<in> set (cards h)" and v: "values c' = values c" by auto
      from c' sub assms(2) c have "wf_card n c'" "wf_card n c" by auto
      from wf_card_eqI [OF this v] c' show "c \<in> set (cards h)" by simp
    qed
  qed
qed

end
